theory Spec2Isabelle
  imports Main "HOL-Library.Word" "HOL-Library.Char_ord" "HOL-Library.List_Lexorder"
    "HOL-Library.Sublist"
begin

unbundle bit_operations_syntax

section \<open>Errors\<close>

text \<open>
  Go error values of \<^verbatim>\<open>migrate.go\<close>. The two package-level sentinels are constructors of
  their own. \<open>External\<close> is an error produced outside the package (the SQL driver, the
  file system). \<open>Errorf fmt qs ws\<close> is the value of \<^verbatim>\<open>fmt.Errorf(fmt, ...)\<close>: the format
  string, the operands of its \<^verbatim>\<open>%q\<close> verbs and the operands of its \<^verbatim>\<open>%w\<close> verbs (the
  errors it wraps; a nil operand wraps nothing).
\<close>

datatype error =
    ErrMigrationFileChanged
  | ErrMigrationFailed
  | External string
  | Errorf string "string list" "error list"

text \<open>\<^verbatim>\<open>errors.Is\<close>: the error itself or anything in its chain of wrapped errors.\<close>

fun error_is :: "error \<Rightarrow> error \<Rightarrow> bool" where
  "error_is (Errorf f qs ws) t = (Errorf f qs ws = t \<or> (\<exists>w \<in> set ws. error_is w t))"
| "error_is ErrMigrationFileChanged t = (t = ErrMigrationFileChanged)"
| "error_is ErrMigrationFailed t = (t = ErrMigrationFailed)"
| "error_is (External s) t = (t = External s)"

text \<open>Whether an artifact name is an operand of the error or of one it wraps.\<close>

fun error_names :: "error \<Rightarrow> string \<Rightarrow> bool" where
  "error_names (Errorf f qs ws) n = (n \<in> set qs \<or> (\<exists>w \<in> set ws. error_names w n))"
| "error_names ErrMigrationFileChanged n = False"
| "error_names ErrMigrationFailed n = False"
| "error_names (External s) n = False"

section \<open>Hasher\<close>

subsection \<open>SHA-256 (\<^verbatim>\<open>crypto/sha256\<close>, FIPS 180-4)\<close>

type_synonym u32 = "32 word"

definition rotr :: "nat \<Rightarrow> u32 \<Rightarrow> u32" where
  "rotr n x = (drop_bit n x) OR (push_bit (32 - n) x)"

text \<open>The sixty-four round constants, in decimal.\<close>

definition K256 :: "u32 list" where
  "K256 = [
   1116352408, 1899447441, 3049323471, 3921009573,
   961987163, 1508970993, 2453635748, 2870763221,
   3624381080, 310598401, 607225278, 1426881987,
   1925078388, 2162078206, 2614888103, 3248222580,
   3835390401, 4022224774, 264347078, 604807628,
   770255983, 1249150122, 1555081692, 1996064986,
   2554220882, 2821834349, 2952996808, 3210313671,
   3336571891, 3584528711, 113926993, 338241895,
   666307205, 773529912, 1294757372, 1396182291,
   1695183700, 1986661051, 2177026350, 2456956037,
   2730485921, 2820302411, 3259730800, 3345764771,
   3516065817, 3600352804, 4094571909, 275423344,
   430227734, 506948616, 659060556, 883997877,
   958139571, 1322822218, 1537002063, 1747873779,
   1955562222, 2024104815, 2227730452, 2361852424,
   2428436474, 2756734187, 3204031479, 3329325298]"

record hstate =
  ha :: u32
  hb :: u32
  hc :: u32
  hd4 :: u32
  he :: u32
  hf :: u32
  hg :: u32
  hh :: u32

definition H0 :: hstate where
  "H0 = \<lparr>ha = 0x6a09e667, hb = 0xbb67ae85, hc = 0x3c6ef372, hd4 = 0xa54ff53a,
         he = 0x510e527f, hf = 0x9b05688c, hg = 0x1f83d9ab, hh = 0x5be0cd19\<rparr>"

definition bsig0 :: "u32 \<Rightarrow> u32" where
  "bsig0 x = rotr 2 x XOR rotr 13 x XOR rotr 22 x"

definition bsig1 :: "u32 \<Rightarrow> u32" where
  "bsig1 x = rotr 6 x XOR rotr 11 x XOR rotr 25 x"

definition ssig0 :: "u32 \<Rightarrow> u32" where
  "ssig0 x = rotr 7 x XOR rotr 18 x XOR drop_bit 3 x"

definition ssig1 :: "u32 \<Rightarrow> u32" where
  "ssig1 x = rotr 17 x XOR rotr 19 x XOR drop_bit 10 x"

definition ch :: "u32 \<Rightarrow> u32 \<Rightarrow> u32 \<Rightarrow> u32" where
  "ch x y z = (x AND y) XOR (NOT x AND z)"

definition maj :: "u32 \<Rightarrow> u32 \<Rightarrow> u32 \<Rightarrow> u32" where
  "maj x y z = (x AND y) XOR (x AND z) XOR (y AND z)"

definition round1 :: "u32 \<Rightarrow> u32 \<Rightarrow> hstate \<Rightarrow> hstate" where
  "round1 k w s =
     (let t1 = hh s + bsig1 (he s) + ch (he s) (hf s) (hg s) + k + w;
          t2 = bsig0 (ha s) + maj (ha s) (hb s) (hc s)
      in \<lparr>ha = t1 + t2, hb = ha s, hc = hb s, hd4 = hc s,
          he = hd4 s + t1, hf = he s, hg = hf s, hh = hg s\<rparr>)"

text \<open>The message schedule is kept as a window of the last sixteen words, oldest first.\<close>

definition next_w :: "u32 list \<Rightarrow> u32" where
  "next_w w = ssig1 (w ! 14) + w ! 9 + ssig0 (w ! 1) + w ! 0"

fun rounds :: "u32 list \<Rightarrow> u32 list \<Rightarrow> hstate \<Rightarrow> hstate" where
  "rounds [] w s = s"
| "rounds (k # ks) w s = rounds ks (tl w @ [next_w w]) (round1 k (w ! 0) s)"

definition add_state :: "hstate \<Rightarrow> hstate \<Rightarrow> hstate" where
  "add_state s t =
     \<lparr>ha = ha s + ha t, hb = hb s + hb t, hc = hc s + hc t, hd4 = hd4 s + hd4 t,
      he = he s + he t, hf = hf s + hf t, hg = hg s + hg t, hh = hh s + hh t\<rparr>"

definition compress :: "hstate \<Rightarrow> u32 list \<Rightarrow> hstate" where
  "compress s w = add_state s (rounds K256 w s)"

definition be32 :: "char \<Rightarrow> char \<Rightarrow> char \<Rightarrow> char \<Rightarrow> u32" where
  "be32 a b c d =
     push_bit 24 (of_char a) OR push_bit 16 (of_char b) OR push_bit 8 (of_char c) OR of_char d"

fun be_words :: "string \<Rightarrow> u32 list" where
  "be_words (a # b # c # d # r) = be32 a b c d # be_words r"
| "be_words _ = []"

function blocks :: "hstate \<Rightarrow> string \<Rightarrow> hstate" where
  "blocks s m =
     (if length m < 64 then s
      else blocks (compress s (be_words (take 64 m))) (drop 64 m))"
  by pat_completeness auto
termination
  by (relation "measure (\<lambda>(s, m). length m)") auto

text \<open>Byte \<open>i\<close> of a word, counted from the least significant one.\<close>

definition byte_of :: "'a::len word \<Rightarrow> nat \<Rightarrow> char" where
  "byte_of w i = char_of (unat (drop_bit (8 * i) w AND 255))"

definition be_bytes32 :: "u32 \<Rightarrow> string" where
  "be_bytes32 w = map (byte_of w) [3, 2, 1, 0]"

definition be_bytes64 :: "64 word \<Rightarrow> string" where
  "be_bytes64 w = map (byte_of w) [7, 6, 5, 4, 3, 2, 1, 0]"

text \<open>Padding: a 1 bit, zeros up to 56 modulo 64 bytes, then the bit length in 64 bits.\<close>

definition pad :: "string \<Rightarrow> string" where
  "pad m = m @ [char_of (128::nat)]
             @ replicate ((119 - length m mod 64) mod 64) (char_of (0::nat))
             @ be_bytes64 (of_nat (8 * length m))"

definition state_bytes :: "hstate \<Rightarrow> string" where
  "state_bytes s =
     concat (map be_bytes32 [ha s, hb s, hc s, hd4 s, he s, hf s, hg s, hh s])"

definition sha256 :: "string \<Rightarrow> string" where
  "sha256 m = state_bytes (blocks H0 (pad m))"

subsection \<open>Formatting (\<^verbatim>\<open>fmt\<close>)\<close>

definition hexdigit :: "nat \<Rightarrow> char" where
  "hexdigit n = (''0123456789abcdef'' ! n)"

text \<open>\<^verbatim>\<open>fmt.Sprintf("%x", bytes)\<close>: two lower-case hexadecimal digits per byte.\<close>

definition sprintf_x :: "string \<Rightarrow> string" where
  "sprintf_x bs = concat (map (\<lambda>c. [hexdigit (of_char c div 16), hexdigit (of_char c mod 16)]) bs)"

function decimal :: "nat \<Rightarrow> string" where
  "decimal n = (if n < 10 then [char_of (48 + n)] else decimal (n div 10) @ [char_of (48 + n mod 10)])"
  by pat_completeness auto
termination
  by (relation "measure id") auto

fun join_space :: "string list \<Rightarrow> string" where
  "join_space [] = []"
| "join_space [x] = x"
| "join_space (x # y # r) = x @ '' '' @ join_space (y # r)"

text \<open>
  \<^verbatim>\<open>fmt.Appendf(nil, "%v", value)\<close> where \<open>value\<close> holds a \<^verbatim>\<open>[]byte\<close>: the verb \<^verbatim>\<open>%v\<close>
  prints a byte slice as its elements in decimal, separated by spaces, in square brackets.
\<close>

definition appendf_v :: "string \<Rightarrow> string" where
  "appendf_v b = ''['' @ join_space (map (\<lambda>c. decimal (of_char c)) b) @ '']''"

subsection \<open>\<^verbatim>\<open>hashFile\<close>\<close>

definition hashFile :: "string \<Rightarrow> string" where
  "hashFile v = sprintf_x (sha256 (appendf_v v))"

declare decimal.simps [simp del]

declare blocks.simps [simp del]

section \<open>Artifact source\<close>

text \<open>
  The embedded file tree (\<^verbatim>\<open>embed.FS\<close>): a file has a base name and its bytes, a
  directory a base name and its entries. The value handed to the migrator is the list of
  entries of the root directory \<^verbatim>\<open>"."\<close>.
\<close>

datatype node = FileN string string | DirN string "node list"

fun node_name :: "node \<Rightarrow> string" where
  "node_name (FileN n c) = n"
| "node_name (DirN n ks) = n"

fun is_file :: "node \<Rightarrow> bool" where
  "is_file (FileN n c) = True"
| "is_file (DirN n ks) = False"

text \<open>
  One call of the \<^verbatim>\<open>fs.WalkDirFunc\<close>: the path, the entry's \<^verbatim>\<open>Name()\<close> and
  \<^verbatim>\<open>IsDir()\<close>, the \<open>err\<close> argument, and what \<^verbatim>\<open>ReadFile(path)\<close> returns for it.
\<close>

record visit =
  vpath :: string
  vname :: string
  vis_dir :: bool
  verr :: "error option"
  vread :: "error + string"

text \<open>\<^verbatim>\<open>path.Join\<close> as \<^verbatim>\<open>fs.WalkDir\<close> uses it below the root \<^verbatim>\<open>"."\<close>.\<close>

definition join_path :: "string \<Rightarrow> string \<Rightarrow> string" where
  "join_path p n = (if p = ''.'' then n else p @ ''/'' @ n)"

text \<open>
  The calls \<^verbatim>\<open>fs.WalkDir\<close> makes for a tree, in its order: a directory before its
  entries, the entries of a directory in ascending order of their names (\<^verbatim>\<open>ReadDir\<close>
  returns them sorted). Reading a directory yields no file content.
\<close>

fun walkDir :: "string \<Rightarrow> node \<Rightarrow> visit list" where
  "walkDir p (FileN n c) =
     [\<lparr>vpath = p, vname = n, vis_dir = False, verr = None, vread = Inr c\<rparr>]"
| "walkDir p (DirN n ks) =
     \<lparr>vpath = p, vname = n, vis_dir = True, verr = None,
       vread = Inl (External ''is a directory'')\<rparr>
     # concat (map (\<lambda>k. walkDir (join_path p (node_name k)) k) (sort_key node_name ks))"

definition walk_calls :: "node list \<Rightarrow> visit list" where
  "walk_calls fsys = walkDir ''.'' (DirN ''.'' fsys)"

text \<open>
  \<^verbatim>\<open>fs.WalkDir\<close> itself: the function is called on every visit in turn and the first
  error it returns ends the walk (the functions of this package never return
  \<^verbatim>\<open>SkipDir\<close> or \<^verbatim>\<open>SkipAll\<close>). The state threaded through is the transaction.
\<close>

fun WalkDir :: "(visit \<Rightarrow> 's \<Rightarrow> error option \<times> 's) \<Rightarrow> visit list \<Rightarrow> 's \<Rightarrow> error option \<times> 's" where
  "WalkDir fn [] s = (None, s)"
| "WalkDir fn (v # vs) s =
     (case fn v s of
        (Some e, s') \<Rightarrow> (Some e, s')
      | (None, s') \<Rightarrow> WalkDir fn vs s')"

text \<open>The artifacts of a tree: name and content of every file, in walk order.\<close>

definition artifacts :: "node list \<Rightarrow> (string \<times> string) list" where
  "artifacts fsys =
     concat (map (\<lambda>v. case vread v of Inr c \<Rightarrow> [(vname v, c)] | Inl e \<Rightarrow> []) (walk_calls fsys))"

section \<open>Ledger store\<close>

text \<open>
  A row of table \<^verbatim>\<open>migrations\<close>: the name is the primary key and \<^verbatim>\<open>NOT NULL\<close>; the
  hash and the applied flag are nullable columns.
\<close>

record db_row =
  row_name :: string
  row_hash :: "string option"
  row_applied :: "bool option"

record migrationRow =
  MigrationName :: string
  MigrationHash :: string
  IsApplied :: bool

text \<open>
  The database: the ledger table (\<open>None\<close> while it does not exist) and the rest of the
  schema, which is what migration scripts act on. The scripts are taken not to touch the
  ledger table themselves.
\<close>

record 'u database =
  migrations_table :: "db_row list option"
  user_schema :: 'u

text \<open>
  What the database and its driver decide: which calls fail (with the driver's message)
  and what a script does to the schema.
\<close>

record 'u dbenv =
  conn_err :: "string option"
  begin_err :: "string option"
  create_err :: "string option"
  check_query_err :: "string option"
  apply_query_err :: "string option"
  exec_sql :: "string \<Rightarrow> 'u \<Rightarrow> string + 'u"
  upsert_err :: "migrationRow \<Rightarrow> string option"
  commit_err :: "string option"

text \<open>
  The open transaction: its own view of the ledger rows and of the schema, and (a ghost
  field) the names of the artifacts whose content was passed to \<^verbatim>\<open>tx.Exec\<close>, in order.
\<close>

record 'u tx =
  tx_rows :: "db_row list"
  tx_user :: 'u
  tx_log :: "string list"

text \<open>\<^verbatim>\<open>CREATE TABLE IF NOT EXISTS migrations\<close> inside a fresh transaction.\<close>

definition ensureTable :: "'u database \<Rightarrow> 'u tx" where
  "ensureTable db =
     \<lparr>tx_rows = (case migrations_table db of None \<Rightarrow> [] | Some rs \<Rightarrow> rs),
      tx_user = user_schema db, tx_log = []\<rparr>"

text \<open>\<^verbatim>\<open>rows.Scan\<close> into a \<^verbatim>\<open>string\<close> and a \<^verbatim>\<open>bool\<close> fails on \<^verbatim>\<open>NULL\<close>.\<close>

definition scan_row :: "db_row \<Rightarrow> error + migrationRow" where
  "scan_row r =
     (case row_hash r of
        None \<Rightarrow> Inl (External ''converting NULL to string is unsupported'')
      | Some h \<Rightarrow>
          (case row_applied r of
             None \<Rightarrow> Inl (External ''converting NULL to bool is unsupported'')
           | Some a \<Rightarrow> Inr \<lparr>MigrationName = row_name r, MigrationHash = h, IsApplied = a\<rparr>))"

fun scan_rows :: "db_row list \<Rightarrow> error + migrationRow list" where
  "scan_rows [] = Inr []"
| "scan_rows (r # rs) =
     (case scan_row r of
        Inl e \<Rightarrow> Inl (Errorf ''scan migration row: %w'' [] [e])
      | Inr m \<Rightarrow> (case scan_rows rs of Inl e \<Rightarrow> Inl e | Inr ms \<Rightarrow> Inr (m # ms)))"

definition getMigrationsKnownToDb :: "string option \<Rightarrow> 'u tx \<Rightarrow> error + migrationRow list" where
  "getMigrationsKnownToDb qerr t =
     (case qerr of
        Some e \<Rightarrow> Inl (Errorf ''query migrations: %w'' [] [External e])
      | None \<Rightarrow> scan_rows (tx_rows t))"

fun findMigrationByName :: "migrationRow list \<Rightarrow> string \<Rightarrow> migrationRow option" where
  "findMigrationByName [] name = None"
| "findMigrationByName (m # ms) name =
     (if MigrationName m = name then Some m else findMigrationByName ms name)"

text \<open>
  \<^verbatim>\<open>INSERT ... ON CONFLICT(migration_name) DO UPDATE SET\<close> hash and flag: the row of
  that name is overwritten, or a new row is added.
\<close>

fun upsert_row :: "migrationRow \<Rightarrow> db_row list \<Rightarrow> db_row list" where
  "upsert_row m [] =
     [\<lparr>row_name = MigrationName m, row_hash = Some (MigrationHash m),
       row_applied = Some (IsApplied m)\<rparr>]"
| "upsert_row m (r # rs) =
     (if row_name r = MigrationName m
      then r\<lparr>row_hash := Some (MigrationHash m), row_applied := Some (IsApplied m)\<rparr> # rs
      else r # upsert_row m rs)"

definition upsertMigration :: "'u dbenv \<Rightarrow> migrationRow \<Rightarrow> 'u tx \<Rightarrow> error option \<times> 'u tx" where
  "upsertMigration env m t =
     (case upsert_err env m of
        Some e \<Rightarrow> (Some (Errorf ''upsert migration: %w'' [] [External e]), t)
      | None \<Rightarrow> (None, t\<lparr>tx_rows := upsert_row m (tx_rows t)\<rparr>))"

section \<open>Integrity checker\<close>

definition check_visit :: "migrationRow list \<Rightarrow> visit \<Rightarrow> error option" where
  "check_visit knownMigrations v =
     (case verr v of
        Some e \<Rightarrow> Some (Errorf ''walk func errored: %w'' [] [e])
      | None \<Rightarrow>
          if vis_dir v then None
          else (case findMigrationByName knownMigrations (vname v) of
                  None \<Rightarrow> None
                | Some migration \<Rightarrow>
                    (case vread v of
                       Inl e \<Rightarrow> Some (Errorf ''read migration file %q: %w'' [vname v] [e])
                     | Inr readBytes \<Rightarrow>
                         if hashFile readBytes \<noteq> MigrationHash migration
                         then Some (Errorf ''migration %q has been altered'' [vname v] [])
                         else None)))"

text \<open>
  When the ledger cannot be read, the function returned wraps its own \<open>err\<close> argument
  (the one of the walk, which shadows the query's error), and does so on every call.
\<close>

definition checkIfMigrationsAreAltered :: "string option \<Rightarrow> 'u tx \<Rightarrow> visit \<Rightarrow> 'u tx \<Rightarrow> error option \<times> 'u tx" where
  "checkIfMigrationsAreAltered qerr t =
     (case getMigrationsKnownToDb qerr t of
        Inl e \<Rightarrow> (\<lambda>v s. (Some (Errorf ''get known migrations: %w'' [] (case verr v of None \<Rightarrow> [] | Some e' \<Rightarrow> [e'])), s))
      | Inr knownMigrations \<Rightarrow> (\<lambda>v s. (check_visit knownMigrations v, s)))"

section \<open>Apply engine\<close>

definition handle_visit :: "'u dbenv \<Rightarrow> migrationRow list \<Rightarrow> visit \<Rightarrow> 'u tx \<Rightarrow> error option \<times> 'u tx" where
  "handle_visit env knownMigrations v t =
     (case verr v of
        Some e \<Rightarrow> (Some (Errorf ''walk func errored: %w'' [] [e]), t)
      | None \<Rightarrow>
          if vis_dir v then (None, t)
          else if (case findMigrationByName knownMigrations (vname v) of
                     None \<Rightarrow> False | Some migration \<Rightarrow> IsApplied migration)
          then (None, t)
          else (case vread v of
                  Inl e \<Rightarrow> (Some (Errorf ''read migration file %q: %w'' [vname v] [e]), t)
                | Inr readBytes \<Rightarrow>
                    (case exec_sql env readBytes (tx_user t) of
                       Inl e \<Rightarrow>
                         (Some (Errorf ''execute migration %q: %w: %w'' [vname v]
                                  [External e, ErrMigrationFailed]),
                          t\<lparr>tx_log := tx_log t @ [vname v]\<rparr>)
                     | Inr u \<Rightarrow>
                         upsertMigration env
                           \<lparr>MigrationName = vname v, MigrationHash = hashFile readBytes,
                            IsApplied = True\<rparr>
                           (t\<lparr>tx_user := u, tx_log := tx_log t @ [vname v]\<rparr>))))"

definition handleMigration :: "'u dbenv \<Rightarrow> 'u tx \<Rightarrow> visit \<Rightarrow> 'u tx \<Rightarrow> error option \<times> 'u tx" where
  "handleMigration env t =
     (case getMigrationsKnownToDb (apply_query_err env) t of
        Inl e \<Rightarrow> (\<lambda>v s. (Some (Errorf ''get known migrations: %w'' [] (case verr v of None \<Rightarrow> [] | Some e' \<Rightarrow> [e'])), s))
      | Inr knownMigrations \<Rightarrow> handle_visit env knownMigrations)"

section \<open>Migrator\<close>

text \<open>
  The outcome of a run: the error returned (\<open>None\<close> for \<open>nil\<close>), the database as it is
  after the run (what was committed, or the database as it was when the transaction was
  rolled back), and the artifacts whose content the run executed, in order.
\<close>

record 'u outcome =
  returned :: "error option"
  db_after :: "'u database"
  executed :: "string list"

definition rollback :: "error \<Rightarrow> 'u database \<Rightarrow> string list \<Rightarrow> 'u outcome" where
  "rollback e db log = \<lparr>returned = Some e, db_after = db, executed = log\<rparr>"

definition Migrate :: "'u dbenv \<Rightarrow> node list \<Rightarrow> 'u database \<Rightarrow> 'u outcome" where
  "Migrate env migrations db =
     (case conn_err env of
        Some e \<Rightarrow> rollback (Errorf ''get connection: %w'' [] [External e]) db []
      | None \<Rightarrow>
     (case begin_err env of
        Some e \<Rightarrow> rollback (Errorf ''begin transaction: %w'' [] [External e]) db []
      | None \<Rightarrow>
     (case create_err env of
        Some e \<Rightarrow> rollback (Errorf ''create migrations table: %w'' [] [External e]) db []
      | None \<Rightarrow>
     (let t = ensureTable db in
      case WalkDir (checkIfMigrationsAreAltered (check_query_err env) t) (walk_calls migrations) t of
        (Some e, t1) \<Rightarrow> rollback ErrMigrationFileChanged db (tx_log t1)
      | (None, t1) \<Rightarrow>
     (case WalkDir (handleMigration env t1) (walk_calls migrations) t1 of
        (Some e, t2) \<Rightarrow> rollback (Errorf ''walk migrations: %w'' [] [e]) db (tx_log t2)
      | (None, t2) \<Rightarrow>
     (case commit_err env of
        Some e \<Rightarrow> rollback (Errorf ''commit transaction: %w'' [] [External e]) db (tx_log t2)
      | None \<Rightarrow>
          \<lparr>returned = None,
           db_after = \<lparr>migrations_table = Some (tx_rows t2), user_schema = tx_user t2\<rparr>,
           executed = tx_log t2\<rparr>))))))"

text \<open>The two walks of a run, from the transaction as it is once the table exists.\<close>

definition check_step :: "'u dbenv \<Rightarrow> node list \<Rightarrow> 'u database \<Rightarrow> error option" where
  "check_step env fsys db =
     fst (WalkDir (checkIfMigrationsAreAltered (check_query_err env) (ensureTable db))
            (walk_calls fsys) (ensureTable db))"

definition apply_step :: "'u dbenv \<Rightarrow> node list \<Rightarrow> 'u database \<Rightarrow> error option \<times> 'u tx" where
  "apply_step env fsys db =
     WalkDir (handleMigration env (ensureTable db)) (walk_calls fsys) (ensureTable db)"

section \<open>Derived notions and sample inputs\<close>

text \<open>
  A database whose schema is the list of the statements run on it, and a driver on which
  only the statement \<^verbatim>\<open>BAD\<close> fails.
\<close>

definition env_ok :: "string list dbenv" where
  "env_ok =
     \<lparr>conn_err = None, begin_err = None, create_err = None, check_query_err = None,
      apply_query_err = None,
      exec_sql = (\<lambda>q u. if q = ''BAD'' then Inl ''syntax error'' else Inr (u @ [q])),
      upsert_err = (\<lambda>m. None), commit_err = None\<rparr>"

definition db_new :: "string list database" where
  "db_new = \<lparr>migrations_table = None, user_schema = []\<rparr>"

definition fs_two :: "node list" where
  "fs_two = [FileN ''002_seed.sql'' ''INSERT'', FileN ''001_init.sql'' ''CREATE'']"

definition fs_bad :: "node list" where
  "fs_bad = [FileN ''001_init.sql'' ''CREATE'', FileN ''002_bad.sql'' ''BAD'',
             FileN ''003_more.sql'' ''ALTER'']"

definition file_visit :: "string \<Rightarrow> string \<Rightarrow> visit" where
  "file_visit n c = \<lparr>vpath = n, vname = n, vis_dir = False, verr = None, vread = Inr c\<rparr>"

definition tx_mixed :: "string list tx" where
  "tx_mixed =
     \<lparr>tx_rows = [\<lparr>row_name = ''a.sql'', row_hash = Some ''00'', row_applied = Some False\<rparr>,
                 \<lparr>row_name = ''b.sql'', row_hash = Some ''00'', row_applied = Some True\<rparr>],
      tx_user = [], tx_log = []\<rparr>"

definition db_tampered :: "string list database" where
  "db_tampered =
     \<lparr>migrations_table =
        Some [\<lparr>row_name = ''001_init.sql'', row_hash = Some ''00'', row_applied = Some True\<rparr>],
      user_schema = [''CREATE'']\<rparr>"

text \<open>The rows of the ledger of a database; none while the table does not exist.\<close>

definition ledger_rows :: "'u database \<Rightarrow> db_row list" where
  "ledger_rows db = (case migrations_table db of None \<Rightarrow> [] | Some rs \<Rightarrow> rs)"

text \<open>
  The names of the artifacts that match a ledger record whose stored hash is not the hash
  of their content.
\<close>

definition altered_artifacts :: "db_row list \<Rightarrow> node list \<Rightarrow> string list" where
  "altered_artifacts rows fsys =
     map fst (filter (\<lambda>(n, c). list_ex (\<lambda>r. row_name r = n \<and> row_hash r \<noteq> None \<and>
                                            row_hash r \<noteq> Some (hashFile c)) rows)
                (artifacts fsys))"

definition db_pending :: "string list database" where
  "db_pending =
     \<lparr>migrations_table =
        Some [\<lparr>row_name = ''001_init.sql'', row_hash = Some ''00'', row_applied = Some False\<rparr>],
      user_schema = []\<rparr>"

definition env_noread :: "string list dbenv" where
  "env_noread = env_ok\<lparr>check_query_err := Some ''permission denied''\<rparr>"

definition dir_visit :: "string \<Rightarrow> string \<Rightarrow> visit" where
  "dir_visit p n =
     \<lparr>vpath = p, vname = n, vis_dir = True, verr = None, vread = Inl (External ''is a directory'')\<rparr>"

text \<open>The ledger row the apply step writes for an artifact (name, content).\<close>

definition applied_row :: "string \<times> string \<Rightarrow> db_row" where
  "applied_row a = \<lparr>row_name = fst a, row_hash = Some (hashFile (snd a)), row_applied = Some True\<rparr>"

definition visit_artifacts :: "visit list \<Rightarrow> (string \<times> string) list" where
  "visit_artifacts vs =
     concat (map (\<lambda>v. case vread v of Inr c \<Rightarrow> [(vname v, c)] | Inl e \<Rightarrow> []) vs)"

definition fs_same_name :: "node list" where
  "fs_same_name = [DirN ''a'' [FileN ''x.sql'' ''A''], DirN ''b'' [FileN ''x.sql'' ''B'']]"

text \<open>The same row as \<open>getMigrationsKnownToDb\<close> reads it back.\<close>

definition known_row :: "string \<times> string \<Rightarrow> migrationRow" where
  "known_row a = \<lparr>MigrationName = fst a, MigrationHash = hashFile (snd a), IsApplied = True\<rparr>"

text \<open>
  All the files of the tree lie in one directory: the root holds only files, or it holds a
  single directory of which the same is true.
\<close>

fun single_dir :: "node list \<Rightarrow> bool" where
  "single_dir [DirN n ks] = single_dir ks"
| "single_dir ks = list_all is_file ks"

definition fs_nested :: "node list" where
  "fs_nested = [DirN ''a'' [FileN ''2.sql'' ''A''], DirN ''b'' [FileN ''1.sql'' ''B'']]"

definition fs_one_dir :: "node list" where
  "fs_one_dir = [DirN ''migrations'' [FileN ''002_seed.sql'' ''INSERT'', FileN ''001_init.sql'' ''CREATE'']]"

lemmas run_defs =
  Migrate_def rollback_def walk_calls_def join_path_def ensureTable_def
  checkIfMigrationsAreAltered_def getMigrationsKnownToDb_def check_visit_def
  handleMigration_def handle_visit_def upsertMigration_def scan_row_def
  check_step_def apply_step_def

section \<open>The structure of a run\<close>

lemma WalkDir_check_state:
  "snd (WalkDir (checkIfMigrationsAreAltered q t) vs s) = s"
  by (induction vs)
    (auto simp: checkIfMigrationsAreAltered_def split: sum.splits option.splits prod.splits)

lemma WalkDir_check_eq:
  "WalkDir (checkIfMigrationsAreAltered q t) vs s =
     (fst (WalkDir (checkIfMigrationsAreAltered q t) vs s), s)"
  by (metis WalkDir_check_state prod.collapse)

lemma ensureTable_log [simp]: "tx_log (ensureTable db) = []"
  by (simp add: ensureTable_def)

lemma Migrate_cases:
  "Migrate env fsys db =
     (case conn_err env of
        Some e \<Rightarrow> rollback (Errorf ''get connection: %w'' [] [External e]) db []
      | None \<Rightarrow>
     (case begin_err env of
        Some e \<Rightarrow> rollback (Errorf ''begin transaction: %w'' [] [External e]) db []
      | None \<Rightarrow>
     (case create_err env of
        Some e \<Rightarrow> rollback (Errorf ''create migrations table: %w'' [] [External e]) db []
      | None \<Rightarrow>
     (case check_step env fsys db of
        Some e \<Rightarrow> rollback ErrMigrationFileChanged db []
      | None \<Rightarrow>
     (case apply_step env fsys db of
        (Some e, t2) \<Rightarrow> rollback (Errorf ''walk migrations: %w'' [] [e]) db (tx_log t2)
      | (None, t2) \<Rightarrow>
     (case commit_err env of
        Some e \<Rightarrow> rollback (Errorf ''commit transaction: %w'' [] [External e]) db (tx_log t2)
      | None \<Rightarrow>
          \<lparr>returned = None,
           db_after = \<lparr>migrations_table = Some (tx_rows t2), user_schema = tx_user t2\<rparr>,
           executed = tx_log t2\<rparr>))))))"
proof -
  let ?t = "ensureTable db"
  let ?c = "WalkDir (checkIfMigrationsAreAltered (check_query_err env) ?t) (walk_calls fsys) ?t"
  have c: "?c = (check_step env fsys db, ?t)"
    unfolding check_step_def by (rule WalkDir_check_eq)
  show ?thesis
    unfolding Migrate_def Let_def c apply_step_def
    by (simp split: option.splits)
qed

section \<open>Atomicity of a run\<close>

text \<open>
  C3. Whenever \<open>Migrate\<close> returns an error, whichever step failed, the database after the
  run is the database before it; and the database differs from the one before only when
  the run returned no error, in which case the connection, the transaction, the table
  creation, both walks and the commit all succeeded.
\<close>

theorem Migrate_error_leaves_ledger:
  "(returned (Migrate env fsys db) \<noteq> None \<longrightarrow> db_after (Migrate env fsys db) = db) \<and>
   (db_after (Migrate env fsys db) \<noteq> db \<longrightarrow>
      returned (Migrate env fsys db) = None \<and> conn_err env = None \<and> begin_err env = None \<and>
      create_err env = None \<and> check_step env fsys db = None \<and>
      fst (apply_step env fsys db) = None \<and> commit_err env = None)"
  by (auto simp: Migrate_cases rollback_def split: option.splits prod.splits)

theorem Migrate_error_leaves_ledger_witness:
  "returned (Migrate env_ok fs_bad db_new) \<noteq> None \<and>
   db_after (Migrate env_ok fs_bad db_new) = db_new \<and>
   executed (Migrate env_ok fs_bad db_new) = [''001_init.sql'', ''002_bad.sql''] \<and>
   db_after (Migrate env_ok fs_two db_new) \<noteq> db_new \<and>
   returned (Migrate env_ok fs_two db_new) = None"
  using Migrate_error_leaves_ledger [of env_ok fs_bad db_new]
    Migrate_error_leaves_ledger [of env_ok fs_two db_new]
  by (simp add: run_defs env_ok_def fs_bad_def fs_two_def db_new_def)

section \<open>The apply step on one artifact\<close>

text \<open>
  C8. In the apply step, for a file whose name has a known ledger record: when the record
  is applied the file is skipped, nothing is executed and the transaction (its ledger rows
  included) is unchanged; when the record is not applied the file is treated as pending,
  its content is executed and what the script does to the schema takes effect.
\<close>

theorem handleMigration_skips_or_executes:
  assumes "getMigrationsKnownToDb (apply_query_err env) t0 = Inr known"
    and "verr v = None" and "\<not> vis_dir v"
    and "findMigrationByName known (vname v) = Some m"
  shows "(IsApplied m \<longrightarrow> handleMigration env t0 v t = (None, t)) \<and>
         (\<not> IsApplied m \<longrightarrow> (\<forall>c. vread v = Inr c \<longrightarrow>
            tx_log (snd (handleMigration env t0 v t)) = tx_log t @ [vname v] \<and>
            (\<forall>u. exec_sql env c (tx_user t) = Inr u \<longrightarrow>
                 tx_user (snd (handleMigration env t0 v t)) = u)))"
  using assms
  by (auto simp: handleMigration_def handle_visit_def upsertMigration_def
      split: sum.splits option.splits)

theorem handleMigration_skips_or_executes_witness:
  "handleMigration env_ok tx_mixed (file_visit ''b.sql'' ''B'') tx_mixed = (None, tx_mixed) \<and>
   tx_log (snd (handleMigration env_ok tx_mixed (file_visit ''a.sql'' ''A'') tx_mixed)) = [''a.sql''] \<and>
   tx_user (snd (handleMigration env_ok tx_mixed (file_visit ''a.sql'' ''A'') tx_mixed)) = [''A'']"
  using handleMigration_skips_or_executes [of env_ok tx_mixed
      "[\<lparr>MigrationName = ''a.sql'', MigrationHash = ''00'', IsApplied = False\<rparr>,
        \<lparr>MigrationName = ''b.sql'', MigrationHash = ''00'', IsApplied = True\<rparr>]"
      "file_visit ''b.sql'' ''B''"
      "\<lparr>MigrationName = ''b.sql'', MigrationHash = ''00'', IsApplied = True\<rparr>" tx_mixed]
    handleMigration_skips_or_executes [of env_ok tx_mixed
      "[\<lparr>MigrationName = ''a.sql'', MigrationHash = ''00'', IsApplied = False\<rparr>,
        \<lparr>MigrationName = ''b.sql'', MigrationHash = ''00'', IsApplied = True\<rparr>]"
      "file_visit ''a.sql'' ''A''"
      "\<lparr>MigrationName = ''a.sql'', MigrationHash = ''00'', IsApplied = False\<rparr>" tx_mixed]
  by (simp add: run_defs env_ok_def tx_mixed_def file_visit_def)

section \<open>The digest\<close>

lemma length_sprintf_x: "length (sprintf_x bs) = 2 * length bs"
  by (induction bs) (simp_all add: sprintf_x_def)

lemma length_sha256: "length (sha256 m) = 32"
  by (simp add: sha256_def state_bytes_def be_bytes32_def)

lemma length_hashFile: "length (hashFile b) = 64"
  by (simp add: hashFile_def length_sprintf_x length_sha256)

lemma hashFile_not_short: "length h \<noteq> 64 \<Longrightarrow> hashFile b \<noteq> h"
  using length_hashFile by blast

section \<open>The walk of an embedded tree\<close>

lemma walkDir_visits:
  "v \<in> set (walkDir p nd) \<Longrightarrow> verr v = None \<and> (vis_dir v \<longleftrightarrow> isl (vread v))"
  by (induction p nd arbitrary: v rule: walkDir.induct) auto

lemma walk_calls_visits:
  "v \<in> set (walk_calls fsys) \<Longrightarrow> verr v = None \<and> (vis_dir v \<longleftrightarrow> isl (vread v))"
  unfolding walk_calls_def by (rule walkDir_visits)

lemma walk_calls_not_Nil: "walk_calls fsys \<noteq> []"
  by (simp add: walk_calls_def)

lemma artifacts_iff:
  "(n, c) \<in> set (artifacts fsys) \<longleftrightarrow> (\<exists>v \<in> set (walk_calls fsys). vname v = n \<and> vread v = Inr c)"
  by (auto simp: artifacts_def split: sum.splits) metis

section \<open>Tamper detection\<close>

lemma scan_rows_find:
  "scan_rows rows = Inr known \<Longrightarrow> distinct (map row_name rows) \<Longrightarrow> r \<in> set rows \<Longrightarrow>
   \<exists>m. findMigrationByName known (row_name r) = Some m \<and> row_hash r = Some (MigrationHash m) \<and>
       row_applied r = Some (IsApplied m) \<and> MigrationName m = row_name r"
proof (induction rows arbitrary: known)
  case Nil
  then show ?case by simp
next
  case (Cons a rows)
  then show ?case
    by (auto simp: scan_row_def split: sum.splits option.splits)
qed

lemma WalkDir_always_error:
  "vs \<noteq> [] \<Longrightarrow> (\<And>v s. fst (fn v s) \<noteq> None) \<Longrightarrow> fst (WalkDir fn vs s) \<noteq> None"
  by (cases vs) (auto split: prod.splits option.splits, metis fst_conv option.distinct(1))

lemma WalkDir_check_hit:
  "v \<in> set vs \<Longrightarrow> check_visit known v \<noteq> None \<Longrightarrow>
   fst (WalkDir (\<lambda>v s. (check_visit known v, s)) vs s) \<noteq> None"
  by (induction vs) (auto split: option.splits)

lemma check_step_altered:
  assumes tab: "migrations_table db = Some rows"
    and dist: "distinct (map row_name rows)"
    and r: "r \<in> set rows" "row_hash r = Some H"
    and art: "(row_name r, c) \<in> set (artifacts fsys)"
    and ne: "hashFile c \<noteq> H"
  shows "check_step env fsys db \<noteq> None"
proof (cases "getMigrationsKnownToDb (check_query_err env) (ensureTable db)")
  case (Inl e)
  then show ?thesis
    unfolding check_step_def checkIfMigrationsAreAltered_def
    by (simp add: WalkDir_always_error walk_calls_not_Nil)
next
  case (Inr known)
  then have sc: "scan_rows rows = Inr known"
    using tab by (auto simp: getMigrationsKnownToDb_def ensureTable_def split: option.splits)
  from scan_rows_find [OF sc dist r(1)] r(2)
  obtain m where m: "findMigrationByName known (row_name r) = Some m" "MigrationHash m = H"
    by auto
  from art obtain v where v: "v \<in> set (walk_calls fsys)" "vname v = row_name r" "vread v = Inr c"
    by (auto simp: artifacts_iff)
  from walk_calls_visits [OF v(1)] v(3) have v': "verr v = None" "\<not> vis_dir v"
    by auto
  have "check_visit known v \<noteq> None"
    using m v v' ne by (simp add: check_visit_def)
  then show ?thesis
    unfolding check_step_def checkIfMigrationsAreAltered_def using Inr v(1)
    by (simp add: WalkDir_check_hit)
qed

text \<open>
  C1. The database is reachable and the ledger (names unique, as the primary key makes
  them) holds an applied record \<open>X\<close> with hash \<open>H\<close>; the tree has a file named \<open>X\<close> whose
  content hashes to something else. Then \<open>Migrate\<close> returns \<open>ErrMigrationFileChanged\<close>,
  executes no artifact and leaves the database as it was.
\<close>

theorem Migrate_detects_altered_applied:
  assumes "conn_err env = None" and "begin_err env = None" and "create_err env = None"
    and "migrations_table db = Some rows" and "distinct (map row_name rows)"
    and "r \<in> set rows" and "row_name r = X" and "row_hash r = Some H"
    and "row_applied r = Some True"
    and "(X, c) \<in> set (artifacts fsys)" and "hashFile c \<noteq> H"
  shows "returned (Migrate env fsys db) = Some ErrMigrationFileChanged \<and>
         executed (Migrate env fsys db) = [] \<and>
         db_after (Migrate env fsys db) = db"
proof -
  have "check_step env fsys db \<noteq> None"
    using check_step_altered [of db rows r H c fsys env] assms by simp
  then show ?thesis
    using assms(1-3) by (auto simp: Migrate_cases rollback_def)
qed

theorem Migrate_detects_altered_applied_witness:
  "hashFile ''CREATE'' \<noteq> ''00'' \<and>
   returned (Migrate env_ok fs_two db_tampered) = Some ErrMigrationFileChanged \<and>
   executed (Migrate env_ok fs_two db_tampered) = [] \<and>
   db_after (Migrate env_ok fs_two db_tampered) = db_tampered"
proof -
  have h: "hashFile ''CREATE'' \<noteq> ''00''"
    by (rule hashFile_not_short) simp
  have a: "(''001_init.sql'', ''CREATE'') \<in> set (artifacts fs_two)"
    by (simp add: artifacts_def walk_calls_def fs_two_def join_path_def)
  show ?thesis
    using h Migrate_detects_altered_applied [of env_ok db_tampered
        "[\<lparr>row_name = ''001_init.sql'', row_hash = Some ''00'', row_applied = Some True\<rparr>]"
        "\<lparr>row_name = ''001_init.sql'', row_hash = Some ''00'', row_applied = Some True\<rparr>"
        "''001_init.sql''" "''00''" "''CREATE''" fs_two, OF _ _ _ _ _ _ _ _ _ a h]
    by (simp add: env_ok_def db_tampered_def)
qed

text \<open>
  C10. The same holds when the record is not applied: with a ledger record \<open>X\<close> whose
  applied flag is false and whose stored hash differs from the hash of the file named \<open>X\<close>,
  the integrity check fails, \<open>Migrate\<close> returns \<open>ErrMigrationFileChanged\<close> and nothing is
  executed, so the re-execution path of the apply step is never reached.
\<close>

theorem Migrate_checks_pending_records:
  assumes "conn_err env = None" and "begin_err env = None" and "create_err env = None"
    and "migrations_table db = Some rows" and "distinct (map row_name rows)"
    and "r \<in> set rows" and "row_name r = X" and "row_hash r = Some H"
    and "row_applied r = Some False"
    and "(X, c) \<in> set (artifacts fsys)" and "hashFile c \<noteq> H"
  shows "check_step env fsys db \<noteq> None \<and>
         returned (Migrate env fsys db) = Some ErrMigrationFileChanged \<and>
         executed (Migrate env fsys db) = []"
proof -
  have "check_step env fsys db \<noteq> None"
    using check_step_altered [of db rows r H c fsys env] assms by simp
  then show ?thesis
    using assms(1-3) by (auto simp: Migrate_cases rollback_def)
qed

theorem Migrate_checks_pending_records_witness:
  "hashFile ''CREATE'' \<noteq> ''00'' \<and>
   check_step env_ok fs_two db_pending \<noteq> None \<and>
   returned (Migrate env_ok fs_two db_pending) = Some ErrMigrationFileChanged \<and>
   executed (Migrate env_ok fs_two db_pending) = []"
proof -
  have h: "hashFile ''CREATE'' \<noteq> ''00''"
    by (rule hashFile_not_short) simp
  have a: "(''001_init.sql'', ''CREATE'') \<in> set (artifacts fs_two)"
    by (simp add: artifacts_def walk_calls_def fs_two_def join_path_def)
  show ?thesis
    using h Migrate_checks_pending_records [of env_ok db_pending
        "[\<lparr>row_name = ''001_init.sql'', row_hash = Some ''00'', row_applied = Some False\<rparr>]"
        "\<lparr>row_name = ''001_init.sql'', row_hash = Some ''00'', row_applied = Some False\<rparr>"
        "''001_init.sql''" "''00''" "''CREATE''" fs_two, OF _ _ _ _ _ _ _ _ _ a h]
    by (simp add: env_ok_def db_pending_def)
qed

section \<open>What \<open>ErrMigrationFileChanged\<close> stands for\<close>

text \<open>
  C6 as stated fails. With a ledger that cannot be read (the query is refused) and no
  ledger record at all, so that no artifact is altered, \<open>Migrate\<close> still returns
  \<open>ErrMigrationFileChanged\<close>; and where an artifact is altered, the error returned is the
  bare sentinel, which does not name it.
\<close>

theorem Migrate_file_changed_counterexample:
  "returned (Migrate env_noread fs_two db_new) = Some ErrMigrationFileChanged \<and>
   altered_artifacts (ledger_rows db_new) fs_two = [] \<and>
   returned (Migrate env_ok fs_two db_tampered) = Some ErrMigrationFileChanged \<and>
   altered_artifacts (ledger_rows db_tampered) fs_two = [''001_init.sql''] \<and>
   \<not> error_names ErrMigrationFileChanged ''001_init.sql''"
proof -
  have h: "hashFile ''CREATE'' \<noteq> ''00''"
    by (rule hashFile_not_short) simp
  have 1: "returned (Migrate env_noread fs_two db_new) = Some ErrMigrationFileChanged"
    by (simp add: run_defs env_noread_def env_ok_def fs_two_def db_new_def)
  have 2: "altered_artifacts (ledger_rows db_new) fs_two = []"
    by (simp add: altered_artifacts_def ledger_rows_def db_new_def)
  have 3: "returned (Migrate env_ok fs_two db_tampered) = Some ErrMigrationFileChanged"
    using h by (simp add: run_defs env_ok_def fs_two_def db_tampered_def)
  have 4: "altered_artifacts (ledger_rows db_tampered) fs_two = [''001_init.sql'']"
    using h by (simp add: altered_artifacts_def ledger_rows_def db_tampered_def artifacts_def
        walk_calls_def fs_two_def join_path_def)
  show ?thesis using 1 2 3 4 by simp
qed

lemma altered_artifacts_iff:
  "X \<in> set (altered_artifacts rows fsys) \<longleftrightarrow>
   (\<exists>c r H. (X, c) \<in> set (artifacts fsys) \<and> r \<in> set rows \<and> row_name r = X \<and>
        row_hash r = Some H \<and> H \<noteq> hashFile c)"
  by (force simp: altered_artifacts_def list_ex_iff)

lemma handle_visit_error_kind:
  "fst (handle_visit env known v t) = Some e \<Longrightarrow> verr v = None \<Longrightarrow>
   (vis_dir v \<longleftrightarrow> isl (vread v)) \<Longrightarrow> \<not> error_is e ErrMigrationFileChanged"
  by (auto simp: handle_visit_def upsertMigration_def split: if_splits sum.splits option.splits)

lemma handleMigration_error_kind:
  "fst (handleMigration env t0 v t) = Some e \<Longrightarrow> verr v = None \<Longrightarrow>
   (vis_dir v \<longleftrightarrow> isl (vread v)) \<Longrightarrow> \<not> error_is e ErrMigrationFileChanged"
  by (cases "getMigrationsKnownToDb (apply_query_err env) t0")
    (auto simp: handleMigration_def dest: handle_visit_error_kind)

lemma WalkDir_error_from:
  "fst (WalkDir fn vs s) = Some e \<Longrightarrow> \<exists>v \<in> set vs. \<exists>s'. fst (fn v s') = Some e"
proof (induction vs arbitrary: s)
  case Nil
  then show ?case by simp
next
  case (Cons v vs)
  show ?case
  proof (cases "fn v s")
    case (Pair r s')
    show ?thesis
    proof (cases r)
      case None
      with Pair Cons.prems have "fst (WalkDir fn vs s') = Some e" by simp
      from Cons.IH [OF this] show ?thesis by auto
    next
      case (Some e')
      with Pair Cons.prems have "fst (fn v s) = Some e" by simp
      then show ?thesis by auto
    qed
  qed
qed

lemma apply_step_error_kind:
  assumes "fst (apply_step env fsys db) = Some e"
  shows "\<not> error_is e ErrMigrationFileChanged"
proof -
  from WalkDir_error_from [OF assms [unfolded apply_step_def]]
  obtain v s' where v: "v \<in> set (walk_calls fsys)"
    and e: "fst (handleMigration env (ensureTable db) v s') = Some e"
    by blast
  from walk_calls_visits [OF v] handleMigration_error_kind [OF e] show ?thesis
    by simp
qed

text \<open>
  C6, amended. When the database is reachable and some artifact \<open>X\<close> matches a ledger
  record whose stored hash differs from the hash of its content, \<open>Migrate\<close> returns exactly
  the sentinel \<open>ErrMigrationFileChanged\<close>, which carries no artifact name. When the
  integrity check passes, no error that \<open>Migrate\<close> returns is \<open>ErrMigrationFileChanged\<close>.
\<close>

theorem Migrate_file_changed_is_bare:
  "(conn_err env = None \<and> begin_err env = None \<and> create_err env = None \<and>
    distinct (map row_name (ledger_rows db)) \<and>
    X \<in> set (altered_artifacts (ledger_rows db) fsys) \<longrightarrow>
      returned (Migrate env fsys db) = Some ErrMigrationFileChanged \<and>
      \<not> error_names ErrMigrationFileChanged X) \<and>
   (check_step env fsys db = None \<and> returned (Migrate env fsys db) = Some e \<longrightarrow>
      \<not> error_is e ErrMigrationFileChanged)"
proof (intro conjI impI)
  assume a: "conn_err env = None \<and> begin_err env = None \<and> create_err env = None \<and>
    distinct (map row_name (ledger_rows db)) \<and>
    X \<in> set (altered_artifacts (ledger_rows db) fsys)"
  then obtain c r H where x: "(X, c) \<in> set (artifacts fsys)" "r \<in> set (ledger_rows db)"
    "row_name r = X" "row_hash r = Some H" "H \<noteq> hashFile c"
    by (auto simp: altered_artifacts_iff)
  from x(2) have tab: "migrations_table db = Some (ledger_rows db)"
    by (cases "migrations_table db") (auto simp: ledger_rows_def)
  have "check_step env fsys db \<noteq> None"
    using check_step_altered [OF tab _ x(2) x(4), of c fsys env] a x by auto
  then show "returned (Migrate env fsys db) = Some ErrMigrationFileChanged"
    using a by (auto simp: Migrate_cases rollback_def)
  show "\<not> error_names ErrMigrationFileChanged X" by simp
next
  assume "check_step env fsys db = None \<and> returned (Migrate env fsys db) = Some e"
  then show "\<not> error_is e ErrMigrationFileChanged"
    using apply_step_error_kind [of env fsys db]
    by (auto simp: Migrate_cases rollback_def split: option.splits prod.splits)
qed

theorem Migrate_file_changed_is_bare_witness:
  "returned (Migrate env_ok fs_two db_tampered) = Some ErrMigrationFileChanged \<and>
   check_step env_ok fs_bad db_new = None \<and>
   returned (Migrate env_ok fs_bad db_new) =
     Some (Errorf ''walk migrations: %w'' []
       [Errorf ''execute migration %q: %w: %w'' [''002_bad.sql'']
         [External ''syntax error'', ErrMigrationFailed]]) \<and>
   \<not> error_is (Errorf ''walk migrations: %w'' []
       [Errorf ''execute migration %q: %w: %w'' [''002_bad.sql'']
         [External ''syntax error'', ErrMigrationFailed]]) ErrMigrationFileChanged"
proof -
  have h: "hashFile ''CREATE'' \<noteq> ''00''"
    by (rule hashFile_not_short) simp
  have 4: "altered_artifacts (ledger_rows db_tampered) fs_two = [''001_init.sql'']"
    using h by (simp add: altered_artifacts_def ledger_rows_def db_tampered_def artifacts_def
        walk_calls_def fs_two_def join_path_def)
  have 5: "check_step env_ok fs_bad db_new = None"
    by (simp add: run_defs env_ok_def fs_bad_def db_new_def)
  have 6: "returned (Migrate env_ok fs_bad db_new) =
     Some (Errorf ''walk migrations: %w'' []
       [Errorf ''execute migration %q: %w: %w'' [''002_bad.sql'']
         [External ''syntax error'', ErrMigrationFailed]])"
    by (simp add: run_defs env_ok_def fs_bad_def db_new_def)
  show ?thesis
    using Migrate_file_changed_is_bare [of env_ok db_tampered "''001_init.sql''" fs_two]
      Migrate_file_changed_is_bare [where env = env_ok and fsys = fs_bad and db = db_new
        and X = "''001_init.sql''"
        and e = "Errorf ''walk migrations: %w'' []
          [Errorf ''execute migration %q: %w: %w'' [''002_bad.sql'']
            [External ''syntax error'', ErrMigrationFailed]]"] 4 5 6
    by (simp add: env_ok_def ledger_rows_def db_tampered_def)
qed

section \<open>Execution failure\<close>

lemma WalkDir_append:
  "WalkDir fn (xs @ ys) s =
     (case WalkDir fn xs s of (Some e, s') \<Rightarrow> (Some e, s') | (None, s') \<Rightarrow> WalkDir fn ys s')"
  by (induction xs arbitrary: s) (auto split: prod.splits option.splits)

text \<open>
  C5. The database is reachable and the integrity check passes. The apply step has gone
  through the visits \<open>vs1\<close> without error and comes to a file \<open>v\<close> that is pending (no applied
  record is known for it) and whose content the database refuses with the error \<open>e\<close>. Then
  \<open>Migrate\<close> returns an error that is \<open>ErrMigrationFailed\<close>, wraps \<open>e\<close> and names \<open>v\<close>; the
  failing artifact is the last one executed, no ledger row is written for it, and the
  database is left as it was.
\<close>

theorem Migrate_stops_at_failed_execution:
  assumes "conn_err env = None" and "begin_err env = None" and "create_err env = None"
    and "check_step env fsys db = None"
    and "getMigrationsKnownToDb (apply_query_err env) (ensureTable db) = Inr known"
    and "walk_calls fsys = vs1 @ v # vs2"
    and "WalkDir (handle_visit env known) vs1 (ensureTable db) = (None, t)"
    and "vread v = Inr c"
    and "\<forall>m. findMigrationByName known (vname v) = Some m \<longrightarrow> \<not> IsApplied m"
    and "exec_sql env c (tx_user t) = Inl e"
  shows "returned (Migrate env fsys db) =
           Some (Errorf ''walk migrations: %w'' []
                  [Errorf ''execute migration %q: %w: %w'' [vname v]
                     [External e, ErrMigrationFailed]]) \<and>
         (\<forall>r. returned (Migrate env fsys db) = Some r \<longrightarrow>
            error_is r ErrMigrationFailed \<and> error_is r (External e) \<and> error_names r (vname v)) \<and>
         executed (Migrate env fsys db) = tx_log t @ [vname v] \<and>
         tx_rows (snd (apply_step env fsys db)) = tx_rows t \<and>
         db_after (Migrate env fsys db) = db"
proof -
  have "v \<in> set (walk_calls fsys)"
    using assms(6) by simp
  from walk_calls_visits [OF this] assms(8) have v: "verr v = None" "\<not> vis_dir v"
    by auto
  have skip: "\<not> (case findMigrationByName known (vname v) of
                  None \<Rightarrow> False | Some migration \<Rightarrow> IsApplied migration)"
    using assms(9) by (auto split: option.splits)
  have hv: "handle_visit env known v t =
      (Some (Errorf ''execute migration %q: %w: %w'' [vname v] [External e, ErrMigrationFailed]),
       t\<lparr>tx_log := tx_log t @ [vname v]\<rparr>)"
    using v skip assms(8,10) by (simp add: handle_visit_def)
  have ap: "apply_step env fsys db =
      (Some (Errorf ''execute migration %q: %w: %w'' [vname v] [External e, ErrMigrationFailed]),
       t\<lparr>tx_log := tx_log t @ [vname v]\<rparr>)"
    unfolding apply_step_def handleMigration_def assms(5,6)
    by (simp add: WalkDir_append assms(7) hv)
  show ?thesis
    using assms(1-4) ap by (simp add: Migrate_cases rollback_def)
qed

theorem Migrate_stops_at_failed_execution_witness:
  "returned (Migrate env_ok fs_bad db_new) =
     Some (Errorf ''walk migrations: %w'' []
            [Errorf ''execute migration %q: %w: %w'' [''002_bad.sql'']
               [External ''syntax error'', ErrMigrationFailed]]) \<and>
   executed (Migrate env_ok fs_bad db_new) = [''001_init.sql'', ''002_bad.sql''] \<and>
   map row_name (tx_rows (snd (apply_step env_ok fs_bad db_new))) = [''001_init.sql''] \<and>
   db_after (Migrate env_ok fs_bad db_new) = db_new"
  using Migrate_stops_at_failed_execution [of env_ok fs_bad db_new "[]"
      "[dir_visit ''.'' ''.'', file_visit ''001_init.sql'' ''CREATE'']"
      "file_visit ''002_bad.sql'' ''BAD''"
      "[file_visit ''003_more.sql'' ''ALTER'']"
      "\<lparr>tx_rows = [\<lparr>row_name = ''001_init.sql'', row_hash = Some (hashFile ''CREATE''),
                      row_applied = Some True\<rparr>],
        tx_user = [''CREATE''], tx_log = [''001_init.sql'']\<rparr>"
      "''BAD''" "''syntax error''"]
  by (simp add: run_defs env_ok_def fs_bad_def db_new_def dir_visit_def file_visit_def)

section \<open>Completeness\<close>

lemma artifacts_visits: "artifacts fsys = visit_artifacts (walk_calls fsys)"
  by (simp add: artifacts_def visit_artifacts_def)

lemma visit_artifacts_Cons:
  "visit_artifacts (v # vs) =
     (case vread v of Inr c \<Rightarrow> [(vname v, c)] | Inl e \<Rightarrow> []) @ visit_artifacts vs"
  by (simp add: visit_artifacts_def)

lemma upsert_row_new:
  "MigrationName m \<notin> row_name ` set rows \<Longrightarrow>
   upsert_row m rows =
     rows @ [\<lparr>row_name = MigrationName m, row_hash = Some (MigrationHash m),
              row_applied = Some (IsApplied m)\<rparr>]"
  by (induction rows) auto

lemma handle_visit_dir:
  "verr v = None \<Longrightarrow> vis_dir v \<Longrightarrow> handle_visit env known v t = (None, t)"
  by (simp add: handle_visit_def)

lemma handle_visit_new_file:
  assumes "verr v = None" and "\<not> vis_dir v" and "vread v = Inr c"
    and "handle_visit env [] v t = (None, t')"
  shows "tx_rows t' =
           upsert_row \<lparr>MigrationName = vname v, MigrationHash = hashFile c, IsApplied = True\<rparr>
             (tx_rows t)"
  using assms
  by (auto simp: handle_visit_def upsertMigration_def split: sum.splits option.splits)

lemma apply_new_rows:
  assumes "WalkDir (handle_visit env []) vs t = (None, t')"
    and "\<forall>v \<in> set vs. verr v = None \<and> (vis_dir v \<longleftrightarrow> isl (vread v))"
    and "distinct (map fst (visit_artifacts vs))"
    and "fst ` set (visit_artifacts vs) \<inter> row_name ` set (tx_rows t) = {}"
  shows "tx_rows t' = tx_rows t @ map applied_row (visit_artifacts vs)"
  using assms
proof (induction vs arbitrary: t)
  case Nil
  then show ?case by (simp add: visit_artifacts_def)
next
  case (Cons v vs)
  from Cons.prems(2) have v: "verr v = None" "vis_dir v \<longleftrightarrow> isl (vread v)"
    by auto
  obtain t1 where t1: "handle_visit env [] v t = (None, t1)"
    and rest: "WalkDir (handle_visit env []) vs t1 = (None, t')"
    using Cons.prems(1) by (auto split: prod.splits option.splits)
  show ?case
  proof (cases "vread v")
    case (Inl e)
    with v have "vis_dir v" by simp
    with v t1 have "t1 = t" by (simp add: handle_visit_dir)
    moreover have "visit_artifacts (v # vs) = visit_artifacts vs"
      using Inl by (simp add: visit_artifacts_Cons)
    ultimately show ?thesis
      using Cons.IH [of t] rest Cons.prems by simp
  next
    case (Inr c)
    with v have nd: "\<not> vis_dir v" by simp
    have va: "visit_artifacts (v # vs) = (vname v, c) # visit_artifacts vs"
      using Inr by (simp add: visit_artifacts_Cons)
    have new: "vname v \<notin> row_name ` set (tx_rows t)"
      using Cons.prems(4) va by auto
    have rows1: "tx_rows t1 = tx_rows t @ [applied_row (vname v, c)]"
      using handle_visit_new_file [OF v(1) nd Inr t1] new
      by (simp add: upsert_row_new applied_row_def)
    have d: "distinct (map fst (visit_artifacts vs))"
      and nin: "vname v \<notin> fst ` set (visit_artifacts vs)"
      using Cons.prems(3) va by auto
    have disj: "fst ` set (visit_artifacts vs) \<inter> row_name ` set (tx_rows t1) = {}"
      using Cons.prems(4) va nin rows1 by (auto simp: applied_row_def)
    have "tx_rows t' = tx_rows t1 @ map applied_row (visit_artifacts vs)"
      using Cons.IH [OF rest _ d disj] Cons.prems(2) by simp
    then show ?thesis
      using rows1 va by simp
  qed
qed

lemma handleMigration_unreadable:
  assumes "getMigrationsKnownToDb (apply_query_err env) t0 = Inl e" and "vs \<noteq> []"
  shows "\<exists>e'. WalkDir (handleMigration env t0) vs s = (Some e', s)"
  using assms by (cases vs) (auto simp: handleMigration_def)

lemma ensureTable_rows [simp]: "tx_rows (ensureTable db) = ledger_rows db"
  by (simp add: ensureTable_def ledger_rows_def)

lemma ensureTable_user [simp]: "tx_user (ensureTable db) = user_schema db"
  by (simp add: ensureTable_def)

lemma apply_step_empty_ledger:
  assumes "ledger_rows db = []" and "fst (apply_step env fsys db) = None"
  shows "apply_step env fsys db =
           WalkDir (handle_visit env []) (walk_calls fsys) (ensureTable db)"
proof (cases "getMigrationsKnownToDb (apply_query_err env) (ensureTable db)")
  case (Inl e)
  from handleMigration_unreadable [OF this walk_calls_not_Nil, of fsys "ensureTable db"] assms(2)
  show ?thesis by (auto simp: apply_step_def)
next
  case (Inr known)
  then have "known = []"
    using assms(1) by (auto simp: getMigrationsKnownToDb_def split: option.splits)
  with Inr show ?thesis
    by (simp add: apply_step_def handleMigration_def)
qed

text \<open>
  C4, amended. From an empty ledger and a tree whose files have pairwise distinct names, a
  run that returns no error leaves exactly one ledger row per file, in walk order, each
  with the applied flag set and with the hash \<open>hashFile\<close> gives for the file's content.
\<close>

theorem Migrate_records_every_artifact:
  assumes "ledger_rows db = []"
    and "distinct (map fst (artifacts fsys))"
    and "returned (Migrate env fsys db) = None"
  shows "ledger_rows (db_after (Migrate env fsys db)) = map applied_row (artifacts fsys) \<and>
         length (ledger_rows (db_after (Migrate env fsys db))) = length (artifacts fsys)"
proof -
  obtain t2 where ap: "apply_step env fsys db = (None, t2)"
    and after: "db_after (Migrate env fsys db) =
      \<lparr>migrations_table = Some (tx_rows t2), user_schema = tx_user t2\<rparr>"
    using assms(3)
    by (auto simp: Migrate_cases rollback_def split: option.splits prod.splits)
  have w: "WalkDir (handle_visit env []) (walk_calls fsys) (ensureTable db) = (None, t2)"
    using apply_step_empty_ledger [OF assms(1), of env fsys] ap by simp
  have "tx_rows t2 = tx_rows (ensureTable db) @ map applied_row (visit_artifacts (walk_calls fsys))"
    by (rule apply_new_rows [OF w])
      (use walk_calls_visits assms(1,2) in \<open>auto simp: artifacts_visits\<close>)
  then have "ledger_rows (db_after (Migrate env fsys db)) = map applied_row (artifacts fsys)"
    using after assms(1) by (simp add: ledger_rows_def artifacts_visits)
  then show ?thesis by simp
qed

theorem Migrate_records_every_artifact_witness:
  "returned (Migrate env_ok fs_two db_new) = None \<and>
   ledger_rows (db_after (Migrate env_ok fs_two db_new)) =
     [\<lparr>row_name = ''001_init.sql'', row_hash = Some (hashFile ''CREATE''), row_applied = Some True\<rparr>,
      \<lparr>row_name = ''002_seed.sql'', row_hash = Some (hashFile ''INSERT''), row_applied = Some True\<rparr>]"
proof -
  have a: "artifacts fs_two = [(''001_init.sql'', ''CREATE''), (''002_seed.sql'', ''INSERT'')]"
    by (simp add: artifacts_def walk_calls_def fs_two_def join_path_def)
  have r: "returned (Migrate env_ok fs_two db_new) = None"
    by (simp add: run_defs env_ok_def fs_two_def db_new_def)
  show ?thesis
    using Migrate_records_every_artifact [of db_new fs_two env_ok] a r
    by (simp add: ledger_rows_def db_new_def applied_row_def)
qed

text \<open>
  C4 as stated fails where two files in different directories share a base name: both are
  executed, and the second upsert overwrites the row of the first, so that two artifacts
  leave one record.
\<close>

theorem Migrate_same_name_counterexample:
  "returned (Migrate env_ok fs_same_name db_new) = None \<and>
   artifacts fs_same_name = [(''x.sql'', ''A''), (''x.sql'', ''B'')] \<and>
   ledger_rows (db_after (Migrate env_ok fs_same_name db_new)) =
     [\<lparr>row_name = ''x.sql'', row_hash = Some (hashFile ''B''), row_applied = Some True\<rparr>]"
  by (simp add: run_defs env_ok_def fs_same_name_def db_new_def ledger_rows_def artifacts_def)

section \<open>Idempotence\<close>

lemma upsert_row_names:
  "row_name ` set (upsert_row m rows) = insert (MigrationName m) (row_name ` set rows)"
  by (induction rows) auto

lemma upsert_row_applied:
  "\<forall>r \<in> set rows. row_hash r \<noteq> None \<and> row_applied r = Some True \<Longrightarrow> IsApplied m \<Longrightarrow>
   \<forall>r \<in> set (upsert_row m rows). row_hash r \<noteq> None \<and> row_applied r = Some True"
  by (induction rows) auto

lemma apply_rows_applied:
  assumes "WalkDir (handle_visit env []) vs t = (None, t')"
    and "\<forall>v \<in> set vs. verr v = None \<and> (vis_dir v \<longleftrightarrow> isl (vread v))"
    and "\<forall>r \<in> set (tx_rows t). row_hash r \<noteq> None \<and> row_applied r = Some True"
  shows "(\<forall>r \<in> set (tx_rows t'). row_hash r \<noteq> None \<and> row_applied r = Some True) \<and>
         row_name ` set (tx_rows t) \<union> fst ` set (visit_artifacts vs) \<subseteq> row_name ` set (tx_rows t')"
  using assms
proof (induction vs arbitrary: t)
  case Nil
  then show ?case by (simp add: visit_artifacts_def)
next
  case (Cons v vs)
  from Cons.prems(2) have v: "verr v = None" "vis_dir v \<longleftrightarrow> isl (vread v)"
    by auto
  obtain t1 where t1: "handle_visit env [] v t = (None, t1)"
    and rest: "WalkDir (handle_visit env []) vs t1 = (None, t')"
    using Cons.prems(1) by (auto split: prod.splits option.splits)
  show ?case
  proof (cases "vread v")
    case (Inl e)
    with v have "vis_dir v" by simp
    with v t1 have "t1 = t" by (simp add: handle_visit_dir)
    moreover have "visit_artifacts (v # vs) = visit_artifacts vs"
      using Inl by (simp add: visit_artifacts_Cons)
    ultimately show ?thesis
      using Cons.IH [of t] rest Cons.prems by simp
  next
    case (Inr c)
    with v have nd: "\<not> vis_dir v" by simp
    let ?m = "\<lparr>MigrationName = vname v, MigrationHash = hashFile c, IsApplied = True\<rparr>"
    have va: "visit_artifacts (v # vs) = (vname v, c) # visit_artifacts vs"
      using Inr by (simp add: visit_artifacts_Cons)
    have rows1: "tx_rows t1 = upsert_row ?m (tx_rows t)"
      by (rule handle_visit_new_file [OF v(1) nd Inr t1])
    have good1: "\<forall>r \<in> set (tx_rows t1). row_hash r \<noteq> None \<and> row_applied r = Some True"
      unfolding rows1 by (rule upsert_row_applied [OF Cons.prems(3)]) simp
    have names1: "row_name ` set (tx_rows t1) = insert (vname v) (row_name ` set (tx_rows t))"
      unfolding rows1 by (simp add: upsert_row_names)
    from Cons.IH [OF rest _ good1] Cons.prems(2)
    have ih: "(\<forall>r \<in> set (tx_rows t'). row_hash r \<noteq> None \<and> row_applied r = Some True) \<and>
         row_name ` set (tx_rows t1) \<union> fst ` set (visit_artifacts vs) \<subseteq> row_name ` set (tx_rows t')"
      by simp
    then show ?thesis
      unfolding va names1 by auto
  qed
qed

lemma scan_rows_find_applied:
  "scan_rows rows = Inr known \<Longrightarrow> \<forall>r \<in> set rows. row_applied r = Some True \<Longrightarrow>
   n \<in> row_name ` set rows \<Longrightarrow> \<exists>m. findMigrationByName known n = Some m \<and> IsApplied m"
proof (induction rows arbitrary: known)
  case Nil
  then show ?case by simp
next
  case (Cons a rows)
  then show ?case
    by (auto simp: scan_row_def split: sum.splits option.splits)
qed

lemma WalkDir_all_skipped:
  "\<forall>v \<in> set vs. verr v = None \<and>
      (\<not> vis_dir v \<longrightarrow> (\<exists>m. findMigrationByName known (vname v) = Some m \<and> IsApplied m)) \<Longrightarrow>
   WalkDir (handle_visit env known) vs t = (None, t)"
  by (induction vs) (auto simp: handle_visit_def)

lemma scan_rows_applied_rows:
  "scan_rows (map applied_row arts) = Inr (map known_row arts)"
  by (induction arts) (simp_all add: applied_row_def known_row_def scan_row_def)

lemma find_known_row:
  "distinct (map fst arts) \<Longrightarrow> (n, c) \<in> set arts \<Longrightarrow>
   findMigrationByName (map known_row arts) n = Some (known_row (n, c))"
  by (induction arts) (auto simp: known_row_def rev_image_eqI)

lemma WalkDir_check_passes:
  "\<forall>v \<in> set vs. check_visit known v = None \<Longrightarrow>
   WalkDir (\<lambda>v s. (check_visit known v, s)) vs s = (None, s)"
  by (induction vs) auto

lemma visit_in_artifacts:
  "v \<in> set vs \<Longrightarrow> vread v = Inr c \<Longrightarrow> (vname v, c) \<in> set (visit_artifacts vs)"
  by (force simp: visit_artifacts_def)


lemma second_run_apply:
  assumes good: "\<forall>r \<in> set (ledger_rows db1). row_applied r = Some True"
    and names: "fst ` set (artifacts fsys) \<subseteq> row_name ` set (ledger_rows db1)"
  shows "\<exists>r. apply_step env2 fsys db1 = (r, ensureTable db1) \<and>
             (apply_query_err env2 = None \<and> (\<forall>r \<in> set (ledger_rows db1). row_hash r \<noteq> None)
                \<longrightarrow> r = None)"
proof (cases "getMigrationsKnownToDb (apply_query_err env2) (ensureTable db1)")
  case (Inl e)
  have "\<not> (apply_query_err env2 = None \<and> (\<forall>r \<in> set (ledger_rows db1). row_hash r \<noteq> None))"
  proof
    assume a: "apply_query_err env2 = None \<and> (\<forall>r \<in> set (ledger_rows db1). row_hash r \<noteq> None)"
    have "\<forall>r \<in> set rows. row_hash r \<noteq> None \<and> row_applied r = Some True \<Longrightarrow>
          \<exists>k. scan_rows rows = Inr k" for rows
      by (induction rows) (auto simp: scan_row_def split: option.splits)
    from this [of "ledger_rows db1"] a good Inl show False
      by (auto simp: getMigrationsKnownToDb_def)
  qed
  with handleMigration_unreadable [OF Inl walk_calls_not_Nil, of fsys "ensureTable db1"]
  show ?thesis
    by (auto simp: apply_step_def)
next
  case (Inr known)
  then have sc: "scan_rows (ledger_rows db1) = Inr known"
    by (auto simp: getMigrationsKnownToDb_def split: option.splits)
  have "\<forall>v \<in> set (walk_calls fsys). verr v = None \<and>
      (\<not> vis_dir v \<longrightarrow> (\<exists>m. findMigrationByName known (vname v) = Some m \<and> IsApplied m))"
  proof (intro ballI conjI impI)
    fix v assume v: "v \<in> set (walk_calls fsys)"
    from walk_calls_visits [OF v] show "verr v = None" by simp
    assume "\<not> vis_dir v"
    with walk_calls_visits [OF v] obtain c where "vread v = Inr c"
      by (cases "vread v") auto
    with v have "(vname v, c) \<in> set (artifacts fsys)"
      by (auto simp: artifacts_iff)
    with names have "vname v \<in> row_name ` set (ledger_rows db1)"
      by force
    from scan_rows_find_applied [OF sc good this]
    show "\<exists>m. findMigrationByName known (vname v) = Some m \<and> IsApplied m" .
  qed
  from WalkDir_all_skipped [OF this, of env2 "ensureTable db1"] Inr
  show ?thesis
    by (simp add: apply_step_def handleMigration_def)
qed

lemma second_run_check:
  assumes "ledger_rows db1 = map applied_row (artifacts fsys)"
    and "distinct (map fst (artifacts fsys))"
    and "check_query_err env2 = None"
  shows "check_step env2 fsys db1 = None"
proof -
  have k: "getMigrationsKnownToDb (check_query_err env2) (ensureTable db1) =
             Inr (map known_row (artifacts fsys))"
    using assms(1,3) by (simp add: getMigrationsKnownToDb_def scan_rows_applied_rows)
  have "\<forall>v \<in> set (walk_calls fsys). check_visit (map known_row (artifacts fsys)) v = None"
  proof
    fix v assume v: "v \<in> set (walk_calls fsys)"
    show "check_visit (map known_row (artifacts fsys)) v = None"
    proof (cases "vread v")
      case (Inl e)
      with walk_calls_visits [OF v] show ?thesis
        by (simp add: check_visit_def)
    next
      case (Inr c)
      with v have "(vname v, c) \<in> set (artifacts fsys)"
        by (auto simp: artifacts_iff)
      from find_known_row [OF assms(2) this] Inr walk_calls_visits [OF v]
      show ?thesis
        by (simp add: check_visit_def known_row_def)
    qed
  qed
  from WalkDir_check_passes [OF this, of "ensureTable db1"] k show ?thesis
    by (simp add: check_step_def checkIfMigrationsAreAltered_def)
qed

text \<open>
  C7. A first run from an empty ledger returns no error. Then a second run on the same
  tree, whatever the database does that time, executes no artifact and leaves the database
  exactly as the first run left it; every artifact has an applied ledger row (which is why
  the apply step skips it); and when the file names are distinct and the database is
  reachable, the second run returns no error either.
\<close>

theorem Migrate_twice_is_idempotent:
  assumes "ledger_rows db = []"
    and "returned (Migrate env fsys db) = None"
  shows "executed (Migrate env2 fsys (db_after (Migrate env fsys db))) = [] \<and>
         db_after (Migrate env2 fsys (db_after (Migrate env fsys db))) =
           db_after (Migrate env fsys db) \<and>
         (\<forall>a \<in> set (artifacts fsys).
            \<exists>r \<in> set (ledger_rows (db_after (Migrate env fsys db))).
              row_name r = fst a \<and> row_applied r = Some True) \<and>
         (distinct (map fst (artifacts fsys)) \<and> conn_err env2 = None \<and> begin_err env2 = None \<and>
          create_err env2 = None \<and> check_query_err env2 = None \<and> apply_query_err env2 = None \<and>
          commit_err env2 = None \<longrightarrow>
            returned (Migrate env2 fsys (db_after (Migrate env fsys db))) = None)"
proof -
  let ?db1 = "db_after (Migrate env fsys db)"
  obtain t2 where ap: "apply_step env fsys db = (None, t2)"
    and after: "?db1 = \<lparr>migrations_table = Some (tx_rows t2), user_schema = tx_user t2\<rparr>"
    using assms(2)
    by (auto simp: Migrate_cases rollback_def split: option.splits prod.splits)
  have w: "WalkDir (handle_visit env []) (walk_calls fsys) (ensureTable db) = (None, t2)"
    using apply_step_empty_ledger [OF assms(1), of env fsys] ap by simp
  have rows1: "ledger_rows ?db1 = tx_rows t2"
    using after by (simp add: ledger_rows_def)
  have wf: "\<forall>v \<in> set (walk_calls fsys). verr v = None \<and> (vis_dir v \<longleftrightarrow> isl (vread v))"
    using walk_calls_visits by blast
  from apply_rows_applied [OF w wf] assms(1)
  have good: "\<forall>r \<in> set (ledger_rows ?db1). row_hash r \<noteq> None \<and> row_applied r = Some True"
    and names: "fst ` set (artifacts fsys) \<subseteq> row_name ` set (ledger_rows ?db1)"
    by (simp_all add: rows1 artifacts_visits)
  have good': "\<forall>r \<in> set (ledger_rows ?db1). row_applied r = Some True"
    using good by blast
  from second_run_apply [OF good' names, of env2]
  obtain r where r: "apply_step env2 fsys ?db1 = (r, ensureTable ?db1)"
    and rn: "apply_query_err env2 = None \<and> (\<forall>r \<in> set (ledger_rows ?db1). row_hash r \<noteq> None)
                \<longrightarrow> r = None"
    by blast
  have same: "\<lparr>migrations_table = Some (tx_rows (ensureTable ?db1)),
               user_schema = tx_user (ensureTable ?db1)\<rparr> = ?db1"
    using after by (simp add: ledger_rows_def)
  have 1: "executed (Migrate env2 fsys ?db1) = []"
    using r by (auto simp: Migrate_cases [of env2] rollback_def split: option.splits)
  have 2: "db_after (Migrate env2 fsys ?db1) = ?db1"
    using r same by (auto simp: Migrate_cases [of env2] rollback_def split: option.splits)
  have 3: "\<forall>a \<in> set (artifacts fsys). \<exists>r \<in> set (ledger_rows ?db1).
              row_name r = fst a \<and> row_applied r = Some True"
    using good names by force
  have 4: "returned (Migrate env2 fsys ?db1) = None"
    if d: "distinct (map fst (artifacts fsys))" and h: "conn_err env2 = None" "begin_err env2 = None"
      "create_err env2 = None" "check_query_err env2 = None" "apply_query_err env2 = None"
      "commit_err env2 = None"
  proof -
    have "tx_rows t2 = tx_rows (ensureTable db) @ map applied_row (visit_artifacts (walk_calls fsys))"
      by (rule apply_new_rows [OF w wf]) (use d assms(1) in \<open>auto simp: artifacts_visits\<close>)
    then have "ledger_rows ?db1 = map applied_row (artifacts fsys)"
      using rows1 assms(1) by (simp add: artifacts_visits)
    from second_run_check [OF this d h(4)] have c: "check_step env2 fsys ?db1 = None" .
    from rn h(5) good have "r = None" by blast
    with r c h show ?thesis
      by (simp add: Migrate_cases [of env2])
  qed
  from 1 2 3 4 show ?thesis by blast
qed

theorem Migrate_twice_is_idempotent_witness:
  "returned (Migrate env_ok fs_two db_new) = None \<and>
   executed (Migrate env_ok fs_two db_new) = [''001_init.sql'', ''002_seed.sql''] \<and>
   executed (Migrate env_ok fs_two (db_after (Migrate env_ok fs_two db_new))) = [] \<and>
   db_after (Migrate env_ok fs_two (db_after (Migrate env_ok fs_two db_new))) =
     db_after (Migrate env_ok fs_two db_new) \<and>
   returned (Migrate env_ok fs_two (db_after (Migrate env_ok fs_two db_new))) = None"
proof -
  have a: "artifacts fs_two = [(''001_init.sql'', ''CREATE''), (''002_seed.sql'', ''INSERT'')]"
    by (simp add: artifacts_def walk_calls_def fs_two_def join_path_def)
  have r: "returned (Migrate env_ok fs_two db_new) = None"
    by (simp add: run_defs env_ok_def fs_two_def db_new_def)
  have e: "executed (Migrate env_ok fs_two db_new) = [''001_init.sql'', ''002_seed.sql'']"
    by (simp add: run_defs env_ok_def fs_two_def db_new_def)
  have l: "ledger_rows db_new = []"
    by (simp add: ledger_rows_def db_new_def)
  from Migrate_twice_is_idempotent [OF l r, of env_ok] a r e show ?thesis
    by (simp add: env_ok_def)
qed

section \<open>Order of execution\<close>

text \<open>
  C9 as stated fails: the walk goes directory by directory, so a file of directory \<open>a\<close> is
  executed before a file of directory \<open>b\<close> even when its name is the greater one.
\<close>

theorem Migrate_order_counterexample:
  "executed (Migrate env_ok fs_nested db_new) = [''2.sql'', ''1.sql''] \<and> ''1.sql'' < ''2.sql''"
  by (simp add: run_defs env_ok_def fs_nested_def db_new_def)

lemma handle_visit_log:
  "\<exists>ys. tx_log (snd (handle_visit env known v t)) = tx_log t @ ys \<and>
        subseq ys (map fst (visit_artifacts [v]))"
  by (auto simp: handle_visit_def upsertMigration_def visit_artifacts_def
      split: sum.splits option.splits)

lemma WalkDir_handle_log:
  "\<exists>ys. tx_log (snd (WalkDir (handle_visit env known) vs t)) = tx_log t @ ys \<and>
        subseq ys (map fst (visit_artifacts vs))"
proof (induction vs arbitrary: t)
  case Nil
  then show ?case by simp
next
  case (Cons v vs)
  obtain r t1 where h: "handle_visit env known v t = (r, t1)"
    by (cases "handle_visit env known v t")
  from handle_visit_log [of env known v t] h
  obtain ys1 where ys1: "tx_log t1 = tx_log t @ ys1" "subseq ys1 (map fst (visit_artifacts [v]))"
    by auto
  have split: "visit_artifacts (v # vs) = visit_artifacts [v] @ visit_artifacts vs"
    by (simp add: visit_artifacts_def)
  show ?case
  proof (cases r)
    case None
    from Cons.IH [of t1]
    obtain ys2 where ys2: "tx_log (snd (WalkDir (handle_visit env known) vs t1)) = tx_log t1 @ ys2"
      "subseq ys2 (map fst (visit_artifacts vs))"
      by auto
    have "subseq (ys1 @ ys2) (map fst (visit_artifacts (v # vs)))"
      unfolding split using ys1(2) ys2(2) by (simp add: list_emb_append_mono)
    then show ?thesis
      using None h ys1(1) ys2(1) by auto
  next
    case (Some e)
    have "subseq ys1 (map fst (visit_artifacts (v # vs)))"
      unfolding split using ys1(2) by (simp add: subseq_rev_drop_many)
    then show ?thesis
      using Some h ys1(1) by auto
  qed
qed

lemma apply_step_log:
  "subseq (tx_log (snd (apply_step env fsys db))) (map fst (artifacts fsys))"
proof (cases "getMigrationsKnownToDb (apply_query_err env) (ensureTable db)")
  case (Inl e)
  from handleMigration_unreadable [OF this walk_calls_not_Nil, of fsys "ensureTable db"]
  show ?thesis by (auto simp: apply_step_def)
next
  case (Inr known)
  with WalkDir_handle_log [of env known "walk_calls fsys" "ensureTable db"]
  show ?thesis
    by (auto simp: apply_step_def handleMigration_def artifacts_visits)
qed

lemma executed_walk_order:
  "subseq (executed (Migrate env fsys db)) (map fst (artifacts fsys))"
  using apply_step_log [of env fsys db]
  by (auto simp: Migrate_cases rollback_def split: option.splits prod.splits)

lemma subseq_sorted:
  "subseq xs ys \<Longrightarrow> sorted ys \<Longrightarrow> sorted xs"
proof (induction rule: list_emb.induct)
  case (list_emb_Nil ys)
  then show ?case by simp
next
  case (list_emb_Cons xs ys y)
  then show ?case by simp
next
  case (list_emb_Cons2 x y xs ys)
  then have "set xs \<subseteq> set ys"
    using list_emb_set [of "(=)" xs ys] by auto
  with list_emb_Cons2 show ?case by auto
qed

lemma files_walk_names:
  "list_all is_file ks \<Longrightarrow>
   map fst (visit_artifacts (concat (map (\<lambda>k. walkDir (f k) k) ks))) = map node_name ks"
proof (induction ks)
  case Nil
  then show ?case by (simp add: visit_artifacts_def)
next
  case (Cons k ks)
  then show ?case
    by (cases k) (simp_all add: visit_artifacts_def)
qed

lemma flat_dir_sorted:
  assumes "list_all is_file ks"
  shows "sorted (map fst (visit_artifacts (walkDir p (DirN n ks))))"
proof -
  have "list_all is_file (sort_key node_name ks)"
    using assms by (simp add: list_all_iff)
  from files_walk_names [OF this]
  have "map fst (visit_artifacts (walkDir p (DirN n ks))) = map node_name (sort_key node_name ks)"
    by (simp add: visit_artifacts_Cons)
  then show ?thesis by simp
qed

lemma single_dir_sorted:
  "single_dir ks \<Longrightarrow> sorted (map fst (visit_artifacts (walkDir p (DirN n ks))))"
proof (induction ks arbitrary: p n rule: single_dir.induct)
  case (1 m ks)
  from 1 have "sorted (map fst (visit_artifacts (walkDir (join_path p m) (DirN m ks))))"
    by simp
  then show ?case
    by (simp add: visit_artifacts_Cons)
qed (rule flat_dir_sorted, simp)+

text \<open>
  C9, amended. The artifacts executed by a run are executed in the order in which
  \<open>fs.WalkDir\<close> visits the files; when all the files lie in one directory, that is the
  ascending lexicographic order of their names.
\<close>

theorem Migrate_executes_in_walk_order:
  "subseq (executed (Migrate env fsys db)) (map fst (artifacts fsys)) \<and>
   (single_dir fsys \<longrightarrow> sorted (executed (Migrate env fsys db)))"
proof (intro conjI impI)
  show w: "subseq (executed (Migrate env fsys db)) (map fst (artifacts fsys))"
    by (rule executed_walk_order)
  assume "single_dir fsys"
  then have "sorted (map fst (artifacts fsys))"
    unfolding artifacts_visits walk_calls_def by (rule single_dir_sorted)
  with w show "sorted (executed (Migrate env fsys db))"
    by (rule subseq_sorted)
qed

theorem Migrate_executes_in_walk_order_witness:
  "single_dir fs_one_dir \<and>
   executed (Migrate env_ok fs_one_dir db_new) = [''001_init.sql'', ''002_seed.sql''] \<and>
   sorted (executed (Migrate env_ok fs_one_dir db_new))"
proof -
  have e: "executed (Migrate env_ok fs_one_dir db_new) = [''001_init.sql'', ''002_seed.sql'']"
    by (simp add: run_defs env_ok_def fs_one_dir_def db_new_def)
  have s: "single_dir fs_one_dir"
    by (simp add: fs_one_dir_def)
  from Migrate_executes_in_walk_order [of env_ok fs_one_dir db_new] s e show ?thesis
    by simp
qed

section \<open>What \<open>hashFile\<close> hashes\<close>

lemma decimal_not_Nil: "decimal n \<noteq> []"
  by (subst decimal.simps) simp

lemma length_join_space: "\<forall>x \<in> set xs. x \<noteq> [] \<Longrightarrow> length xs \<le> length (join_space xs)"
proof (induction xs rule: join_space.induct)
  case 1
  then show ?case by simp
next
  case (2 x)
  then show ?case by (cases x) simp_all
next
  case (3 x y r)
  then show ?case by simp
qed

lemma length_appendf_v: "length b < length (appendf_v b)"
proof -
  have "length (map (\<lambda>c. decimal (of_char c)) b)
          \<le> length (join_space (map (\<lambda>c. decimal (of_char c)) b))"
    by (rule length_join_space) (simp add: decimal_not_Nil)
  then show ?thesis by (simp add: appendf_v_def)
qed

lemma appendf_v_hi: "appendf_v ''hi'' = ''[104 105]''"
  by code_simp

text \<open>
  C2. The digest \<open>hashFile\<close> returns is not the hash of the bytes it is given: the bytes
  \<^verbatim>\<open>hi\<close> are hashed as the text \<^verbatim>\<open>[104 105]\<close>, and for every content \<open>b\<close> what is hashed
  is the \<^verbatim>\<open>%v\<close> rendering of \<open>b\<close>, which is never \<open>b\<close> itself.
\<close>

theorem hashFile_hashes_formatted_text:
  "hashFile ''hi'' = sprintf_x (sha256 ''[104 105]'') \<and> ''[104 105]'' \<noteq> ''hi'' \<and>
   hashFile b = sprintf_x (sha256 (appendf_v b)) \<and> appendf_v b \<noteq> b"
  using length_appendf_v [of b] by (auto simp: hashFile_def appendf_v_hi)

end
